theory Spec2Isabelle
  imports Main "HOL-Library.AList"
begin

section \<open>Values, objects and the store\<close>

text \<open>
  The merge engine (\<^verbatim>\<open>mergeConfig\<close> in \<^verbatim>\<open>merge.ts\<close>) and its clone primitive
  (\<^verbatim>\<open>deepClone\<close> in \<^verbatim>\<open>common.ts\<close>) work on JavaScript values. Objects have an
  identity and are mutated in place, so the embedding keeps an explicit store: a value is a
  primitive or a reference into a list of objects, and an address is an index of that list.
  A new object is appended at the end of the store, so \<open>length h\<close> is always the next
  fresh address.

  Numbers are leaves that the two functions only copy and compare with \<^verbatim>\<open>undefined\<close>;
  they are kept as integers. Property reads and writes are those of own data properties:
  the prototype chain is not part of the store, so a property named \<^verbatim>\<open>__proto__\<close> is
  outside the embedding. An array has its elements, and a date, a map and a set their
  internal data (the instant, the entries, the members); none of them has another own
  property. The properties of a plain object are listed in the order in which
  \<^verbatim>\<open>for ... in\<close> and \<^verbatim>\<open>Object.keys\<close> enumerate them.
\<close>

type_synonym addr = nat

datatype prim = PBool bool | PNum int | PStr string

datatype val = Undefined | Null | Prim prim | Ref addr

datatype obj =
    Plain "(string \<times> val) list"
  | Array "val list"
  | Date int
  | MapObj "(val \<times> val) list"
  | SetObj "val list"

type_synonym heap = "obj list"

text \<open>
  A call returns, throws, exhausts its budget of nested calls, or reaches a state the
  embedding does not describe (\<open>Stuck\<close>): an address outside the store, or a property
  access on an array, date, map or set as the target of a merge (their index, length and
  internal slots are not modelled).
\<close>

datatype error = TypeError

datatype 'a outcome = Returns 'a | Throws error | OutOfFuel | Stuck

fun obind :: "'a outcome \<Rightarrow> ('a \<Rightarrow> 'b outcome) \<Rightarrow> 'b outcome" where
  "obind (Returns x) f = f x"
| "obind (Throws e) f = Throws e"
| "obind OutOfFuel f = OutOfFuel"
| "obind Stuck f = Stuck"

text \<open>\<^verbatim>\<open>typeof v === "object"\<close>, which holds of \<^verbatim>\<open>null\<close> too.\<close>

definition typeof_object :: "val \<Rightarrow> bool" where
  "typeof_object v = (case v of Null \<Rightarrow> True | Ref a \<Rightarrow> True | _ \<Rightarrow> False)"

text \<open>\<^verbatim>\<open>typeof v === "object" && v !== null\<close>\<close>

definition is_object :: "val \<Rightarrow> bool" where
  "is_object v = (typeof_object v \<and> v \<noteq> Null)"

text \<open>\<^verbatim>\<open>Array.isArray(v)\<close>\<close>

definition isArray :: "heap \<Rightarrow> val \<Rightarrow> bool" where
  "isArray h v =
     (case v of
        Ref a \<Rightarrow> a < length h \<and> (case h ! a of Array es \<Rightarrow> True | _ \<Rightarrow> False)
      | _ \<Rightarrow> False)"

section \<open>deepClone\<close>

text \<open>
  \<^verbatim>\<open>obj.map(deepClone)\<close>: the elements are cloned from left to right, each call seeing
  the store the previous one left.
\<close>

fun clone_list ::
  "(heap \<Rightarrow> val \<Rightarrow> (val \<times> heap) outcome) \<Rightarrow> heap \<Rightarrow> val list \<Rightarrow> (val list \<times> heap) outcome"
where
  "clone_list f h [] = Returns ([], h)"
| "clone_list f h (v # vs) =
     obind (f h v) (\<lambda>(v', h1).
     obind (clone_list f h1 vs) (\<lambda>(vs', h2).
     Returns (v' # vs', h2)))"

text \<open>
  \<^verbatim>\<open>for (const key in obj) if (hasOwnProperty(obj, key)) cloned[key] = deepClone(obj[key])\<close>:
  the own properties in their order. The object \<^verbatim>\<open>cloned\<close> is local to the call until
  it is returned, so it enters the store when its properties are complete.
\<close>

fun clone_props ::
  "(heap \<Rightarrow> val \<Rightarrow> (val \<times> heap) outcome) \<Rightarrow> heap \<Rightarrow> (string \<times> val) list
     \<Rightarrow> ((string \<times> val) list \<times> heap) outcome"
where
  "clone_props f h [] = Returns ([], h)"
| "clone_props f h ((key, v) # ps) =
     obind (f h v) (\<lambda>(v', h1).
     obind (clone_props f h1 ps) (\<lambda>(ps', h2).
     Returns ((key, v') # ps', h2)))"

text \<open>
  The first argument bounds the depth of nested calls: the source recurses without a
  bound, and on a cyclic object no budget is enough. The branches follow the source: a
  primitive is returned as it is; a date, a map and a set are copied into a new object with
  the same instant, entries and members (the entries and members themselves are not
  cloned); an array and any other object are rebuilt from the clones of their elements
  and properties.
\<close>

primrec deepClone :: "nat \<Rightarrow> heap \<Rightarrow> val \<Rightarrow> (val \<times> heap) outcome" where
  "deepClone 0 h obj = OutOfFuel"
| "deepClone (Suc n) h obj =
     (if obj = Null \<or> \<not> typeof_object obj then Returns (obj, h)
      else
        (case obj of
           Ref a \<Rightarrow>
             if a < length h then
               (case h ! a of
                  Date t \<Rightarrow> Returns (Ref (length h), h @ [Date t])
                | MapObj es \<Rightarrow> Returns (Ref (length h), h @ [MapObj es])
                | SetObj ms \<Rightarrow> Returns (Ref (length h), h @ [SetObj ms])
                | Array es \<Rightarrow>
                    obind (clone_list (deepClone n) h es) (\<lambda>(es', h').
                    Returns (Ref (length h'), h' @ [Array es']))
                | Plain ps \<Rightarrow>
                    obind (clone_props (deepClone n) h ps) (\<lambda>(ps', h').
                    Returns (Ref (length h'), h' @ [Plain ps'])))
             else Stuck
         | _ \<Rightarrow> Returns (obj, h)))"

section \<open>mergeConfig\<close>

text \<open>
  The strategy table maps a dotted path to the string stored under it;
  \<^verbatim>\<open>strategies[currentPath]\<close> is \<^verbatim>\<open>undefined\<close> where the table has no entry.
  \<^verbatim>\<open>const strategies = options || {}\<close> is \<open>strategies_of\<close>.
\<close>

type_synonym strategies = "string \<Rightarrow> string option"

definition strategies_of :: "strategies option \<Rightarrow> strategies" where
  "strategies_of options = (case options of None \<Rightarrow> Map.empty | Some t \<Rightarrow> t)"

text \<open>\<^verbatim>\<open>path ? `${path}.${key}` : key\<close>\<close>

definition currentPath :: "string \<Rightarrow> string \<Rightarrow> string" where
  "currentPath path key = (if path \<noteq> [] then path @ ''.'' @ key else key)"

text \<open>
  \<^verbatim>\<open>Object.keys(source)\<close>. The merge calls it on a non-array object only; a date, a map
  and a set have no own enumerable property.
\<close>

definition object_keys :: "heap \<Rightarrow> val \<Rightarrow> string list outcome" where
  "object_keys h v =
     (case v of
        Ref a \<Rightarrow>
          if a < length h then
            (case h ! a of
               Plain ps \<Rightarrow> Returns (map fst ps)
             | Array es \<Rightarrow> Stuck
             | _ \<Rightarrow> Returns [])
          else Stuck
      | _ \<Rightarrow> Stuck)"

text \<open>
  \<^verbatim>\<open>o[key]\<close> as a read. On \<^verbatim>\<open>null\<close> and \<^verbatim>\<open>undefined\<close> it throws. On a boolean,
  number or string it yields a primitive or \<^verbatim>\<open>undefined\<close>; the merge only tests whether
  the value read is an object, so \<open>Undefined\<close> stands for all of them.
\<close>

definition get_prop :: "heap \<Rightarrow> val \<Rightarrow> string \<Rightarrow> val outcome" where
  "get_prop h v key =
     (case v of
        Undefined \<Rightarrow> Throws TypeError
      | Null \<Rightarrow> Throws TypeError
      | Prim p \<Rightarrow> Returns Undefined
      | Ref a \<Rightarrow>
          if a < length h then
            (case h ! a of
               Plain ps \<Rightarrow> Returns (case map_of ps key of None \<Rightarrow> Undefined | Some x \<Rightarrow> x)
             | _ \<Rightarrow> Stuck)
          else Stuck)"

text \<open>
  \<^verbatim>\<open>o[key] = v\<close>. The module is strict code, where creating a property on a primitive
  throws. An existing property keeps its place, a new one is added last.
\<close>

definition set_prop :: "heap \<Rightarrow> val \<Rightarrow> string \<Rightarrow> val \<Rightarrow> heap outcome" where
  "set_prop h target key v =
     (case target of
        Ref a \<Rightarrow>
          if a < length h then
            (case h ! a of
               Plain ps \<Rightarrow> Returns (h[a := Plain (AList.update key v ps)])
             | _ \<Rightarrow> Stuck)
          else Stuck
      | _ \<Rightarrow> Throws TypeError)"

text \<open>
  The body of the loop of \<^verbatim>\<open>merge\<close> for one key, with the five cases of the source in
  their order. \<open>rec\<close> is the recursive call and \<open>dc\<close> is \<^verbatim>\<open>deepClone\<close>, both with
  the budget left to the enclosing call.
\<close>

definition merge_key ::
  "(heap \<Rightarrow> val \<Rightarrow> val \<Rightarrow> string \<Rightarrow> heap outcome) \<Rightarrow> (heap \<Rightarrow> val \<Rightarrow> (val \<times> heap) outcome)
     \<Rightarrow> strategies \<Rightarrow> val \<Rightarrow> val \<Rightarrow> string \<Rightarrow> string \<Rightarrow> heap \<Rightarrow> heap outcome"
where
  "merge_key rec dc st target source path key h =
     (let cp = currentPath path key;
          strategy = st cp
      in
      obind (get_prop h source key) (\<lambda>sourceValue.
      obind (get_prop h target key) (\<lambda>targetValue.
        if strategy = Some ''safe'' \<and> sourceValue = Undefined then Returns h
        else if strategy = None \<and> \<not> typeof_object sourceValue \<and> sourceValue = Undefined
          then Returns h
        else if strategy = Some ''replace'' \<or> isArray h sourceValue then
          obind (dc h sourceValue) (\<lambda>(v', h1). set_prop h1 target key v')
        else if typeof_object sourceValue \<and> sourceValue \<noteq> Null \<and>
                typeof_object targetValue \<and> targetValue \<noteq> Null then
          rec h targetValue sourceValue cp
        else
          obind (dc h sourceValue) (\<lambda>(v', h1). set_prop h1 target key v'))))"

text \<open>
  \<^verbatim>\<open>for (const key of Object.keys(source))\<close>: the keys are fixed when the loop starts,
  the values are read from the store as it is at each turn.
\<close>

fun merge_keys ::
  "(heap \<Rightarrow> val \<Rightarrow> val \<Rightarrow> string \<Rightarrow> heap outcome) \<Rightarrow> (heap \<Rightarrow> val \<Rightarrow> (val \<times> heap) outcome)
     \<Rightarrow> strategies \<Rightarrow> val \<Rightarrow> val \<Rightarrow> string \<Rightarrow> string list \<Rightarrow> heap \<Rightarrow> heap outcome"
where
  "merge_keys rec dc st target source path [] h = Returns h"
| "merge_keys rec dc st target source path (key # ks) h =
     obind (merge_key rec dc st target source path key h)
       (merge_keys rec dc st target source path ks)"

primrec merge :: "nat \<Rightarrow> strategies \<Rightarrow> heap \<Rightarrow> val \<Rightarrow> val \<Rightarrow> string \<Rightarrow> heap outcome" where
  "merge 0 st h target source path = OutOfFuel"
| "merge (Suc n) st h target source path =
     (if \<not> typeof_object source \<or> source = Null \<or> isArray h source then Returns h
      else
        obind (object_keys h source) (\<lambda>ks.
        merge_keys (merge n st) (deepClone n) st target source path ks h))"

text \<open>
  The clone of \<^verbatim>\<open>config\<close> is merged in place and returned. The root call of
  \<^verbatim>\<open>merge\<close> has the empty path.
\<close>

definition mergeConfig ::
  "nat \<Rightarrow> strategies option \<Rightarrow> heap \<Rightarrow> val \<Rightarrow> val \<Rightarrow> (val \<times> heap) outcome"
where
  "mergeConfig n options h config newConfig =
     (let strategies = strategies_of options in
      obind (deepClone n h config) (\<lambda>(result, h1).
      obind (merge n strategies h1 result newConfig []) (\<lambda>h2.
      Returns (result, h2))))"

section \<open>Shapes, ownership and well-formed stores\<close>

text \<open>
  The shape of a value is the finite tree obtained by following references through the
  elements of arrays and the properties of plain objects. Two values are deep-equal when
  they have the same shape. The entries of a map and the members of a set are part of the
  shape as they stand, references included: a map is equal to a map with the very same keys
  and values. A value on a cycle has no shape.
\<close>

datatype tree =
    TLeaf val
  | TDate int
  | TMap "(val \<times> val) list"
  | TSet "val list"
  | TArray "tree list"
  | TPlain "string list" "tree list"

inductive shape :: "heap \<Rightarrow> val \<Rightarrow> tree \<Rightarrow> bool"
  and shapes :: "heap \<Rightarrow> val list \<Rightarrow> tree list \<Rightarrow> bool"
where
  shape_leaf: "\<not> is_object v \<Longrightarrow> shape h v (TLeaf v)"
| shape_date: "a < length h \<Longrightarrow> h ! a = Date d \<Longrightarrow> shape h (Ref a) (TDate d)"
| shape_map: "a < length h \<Longrightarrow> h ! a = MapObj es \<Longrightarrow> shape h (Ref a) (TMap es)"
| shape_set: "a < length h \<Longrightarrow> h ! a = SetObj ms \<Longrightarrow> shape h (Ref a) (TSet ms)"
| shape_array: "a < length h \<Longrightarrow> h ! a = Array es \<Longrightarrow> shapes h es ts \<Longrightarrow> shape h (Ref a) (TArray ts)"
| shape_plain: "a < length h \<Longrightarrow> h ! a = Plain ps \<Longrightarrow> shapes h (map snd ps) ts
     \<Longrightarrow> shape h (Ref a) (TPlain (map fst ps) ts)"
| shapes_nil: "shapes h [] []"
| shapes_cons: "shape h v t \<Longrightarrow> shapes h vs ts \<Longrightarrow> shapes h (v # vs) (t # ts)"

text \<open>The shape of a value, computed: \<open>snapshot\<close> enumerates it.\<close>

code_pred (modes: i \<Rightarrow> i \<Rightarrow> o \<Rightarrow> bool as snapshot) shape .

definition deep_equal :: "heap \<Rightarrow> val \<Rightarrow> val \<Rightarrow> bool" where
  "deep_equal h v w = (\<exists>t. shape h v t \<and> shape h w t)"

text \<open>
  \<open>own h v t A\<close>: the value has shape \<open>t\<close>, and the objects of that shape sit at the
  addresses \<open>A\<close>, each of them reached in one way only. What a clone returns and what a
  merge works on is owned in this sense: writing under one property cannot change what is
  under another.
\<close>

inductive own :: "heap \<Rightarrow> val \<Rightarrow> tree \<Rightarrow> addr set \<Rightarrow> bool"
  and owns :: "heap \<Rightarrow> val list \<Rightarrow> tree list \<Rightarrow> addr set \<Rightarrow> bool"
where
  own_leaf: "\<not> is_object v \<Longrightarrow> own h v (TLeaf v) {}"
| own_date: "a < length h \<Longrightarrow> h ! a = Date d \<Longrightarrow> own h (Ref a) (TDate d) {a}"
| own_map: "a < length h \<Longrightarrow> h ! a = MapObj es \<Longrightarrow> own h (Ref a) (TMap es) {a}"
| own_set: "a < length h \<Longrightarrow> h ! a = SetObj ms \<Longrightarrow> own h (Ref a) (TSet ms) {a}"
| own_array: "a < length h \<Longrightarrow> h ! a = Array es \<Longrightarrow> owns h es ts A \<Longrightarrow> a \<notin> A
     \<Longrightarrow> own h (Ref a) (TArray ts) (insert a A)"
| own_plain: "a < length h \<Longrightarrow> h ! a = Plain ps \<Longrightarrow> owns h (map snd ps) ts A \<Longrightarrow> a \<notin> A
     \<Longrightarrow> own h (Ref a) (TPlain (map fst ps) ts) (insert a A)"
| owns_nil: "owns h [] [] {}"
| owns_cons: "own h v t A \<Longrightarrow> owns h vs ts B \<Longrightarrow> A \<inter> B = {}
     \<Longrightarrow> owns h (v # vs) (t # ts) (A \<union> B)"

text \<open>
  A store of a running program: every reference held by an object is an address of the
  store, and the property names of an object are distinct.
\<close>

definition val_ok :: "heap \<Rightarrow> val \<Rightarrow> bool" where
  "val_ok h v = (case v of Ref a \<Rightarrow> a < length h | _ \<Rightarrow> True)"

definition obj_ok :: "heap \<Rightarrow> obj \<Rightarrow> bool" where
  "obj_ok h ob =
     (case ob of
        Plain ps \<Rightarrow> distinct (map fst ps) \<and> list_all (val_ok h) (map snd ps)
      | Array es \<Rightarrow> list_all (val_ok h) es
      | Date t \<Rightarrow> True
      | MapObj es \<Rightarrow> list_all (\<lambda>(k, v). val_ok h k \<and> val_ok h v) es
      | SetObj ms \<Rightarrow> list_all (val_ok h) ms)"

definition wf_heap :: "heap \<Rightarrow> bool" where
  "wf_heap h = list_all (obj_ok h) h"

text \<open>
  What a clone establishes: the store is extended, never written; the result is an owned
  tree of new objects with the shape of the original.
\<close>

definition clone_post :: "heap \<Rightarrow> val \<Rightarrow> val \<Rightarrow> heap \<Rightarrow> bool" where
  "clone_post h v v' h' =
     (\<exists>ext t A. h' = h @ ext \<and> shape h' v t \<and> own h' v' t A \<and> A \<subseteq> {length h..<length h'})"

definition clones_post :: "heap \<Rightarrow> val list \<Rightarrow> val list \<Rightarrow> heap \<Rightarrow> bool" where
  "clones_post h vs vs' h' =
     (\<exists>ext ts A. h' = h @ ext \<and> shapes h' vs ts \<and> owns h' vs' ts A \<and> A \<subseteq> {length h..<length h'})"

text \<open>
  What a merge into an owned target establishes: the target is still owned, by objects it
  owned before or new ones, and no other object of the store is written.
\<close>

definition merge_post :: "heap \<Rightarrow> val \<Rightarrow> heap \<Rightarrow> bool" where
  "merge_post h target h' =
     (length h \<le> length h' \<and>
      (\<forall>t A. own h target t A \<longrightarrow>
         (\<exists>t' A'. own h' target t' A' \<and> A' \<subseteq> A \<union> {length h..<length h'}) \<and>
         (\<forall>x<length h. x \<notin> A \<longrightarrow> h' ! x = h ! x)))"

definition rec_ok :: "(heap \<Rightarrow> val \<Rightarrow> val \<Rightarrow> string \<Rightarrow> heap outcome) \<Rightarrow> bool" where
  "rec_ok rec = (\<forall>h t s p h'. rec h t s p = Returns h' \<longrightarrow> merge_post h t h')"

definition dc_ok :: "(heap \<Rightarrow> val \<Rightarrow> (val \<times> heap) outcome) \<Rightarrow> bool" where
  "dc_ok dc = (\<forall>h v v' h'. dc h v = Returns (v', h') \<longrightarrow> clone_post h v v' h')"

definition mono_step ::
  "(heap \<Rightarrow> val \<Rightarrow> (val \<times> heap) outcome) \<Rightarrow> (heap \<Rightarrow> val \<Rightarrow> (val \<times> heap) outcome) \<Rightarrow> bool"
where
  "mono_step f g = (\<forall>h v r. f h v = Returns r \<longrightarrow> g h v = Returns r)"

text \<open>
  Strategy tables. The merge tests an entry against \<^verbatim>\<open>"safe"\<close>, \<^verbatim>\<open>undefined\<close> and
  \<^verbatim>\<open>"replace"\<close>; \<open>same_tests\<close> relates two tables that no such test tells apart.
  \<open>without_malformed\<close> removes the entries that are not one of the three strategy
  strings, \<open>malformed_as_merge\<close> turns them into \<^verbatim>\<open>"merge"\<close>.
\<close>

definition recognized :: "string \<Rightarrow> bool" where
  "recognized s = (s = ''merge'' \<or> s = ''replace'' \<or> s = ''safe'')"

definition without_malformed :: "strategies \<Rightarrow> strategies" where
  "without_malformed st p =
     (case st p of None \<Rightarrow> None | Some s \<Rightarrow> if recognized s then Some s else None)"

definition malformed_as_merge :: "strategies \<Rightarrow> strategies" where
  "malformed_as_merge st p =
     (case st p of None \<Rightarrow> None | Some s \<Rightarrow> if recognized s then Some s else Some ''merge'')"

definition same_tests :: "strategies \<Rightarrow> strategies \<Rightarrow> bool" where
  "same_tests st st' =
     (\<forall>p. (st p = Some ''safe'' \<longleftrightarrow> st' p = Some ''safe'') \<and>
          (st p = None \<longleftrightarrow> st' p = None) \<and>
          (st p = Some ''replace'' \<longleftrightarrow> st' p = Some ''replace''))"

text \<open>
  \<open>undef_free n st h source path\<close>: in the part of the override that a merge of budget
  \<open>n\<close> can visit, no property with the value \<^verbatim>\<open>undefined\<close> sits at a path whose entry is
  malformed.
\<close>

primrec undef_free :: "nat \<Rightarrow> strategies \<Rightarrow> heap \<Rightarrow> val \<Rightarrow> string \<Rightarrow> bool" where
  "undef_free 0 st h source path = True"
| "undef_free (Suc n) st h source path =
     (case source of
        Ref a \<Rightarrow>
          if a < length h then
            (case h ! a of
               Plain ps \<Rightarrow>
                 list_all (\<lambda>(key, v).
                   (v = Undefined \<longrightarrow>
                      (case st (currentPath path key) of None \<Rightarrow> True | Some s \<Rightarrow> recognized s)) \<and>
                   undef_free n st h v (currentPath path key)) ps
             | _ \<Rightarrow> True)
          else True
      | _ \<Rightarrow> True)"

text \<open>
  \<open>fresh_target h H t\<close>: the store \<open>H\<close> extends \<open>h\<close> and the target \<open>t\<close> is owned by
  objects made after \<open>h\<close>.
\<close>

definition fresh_target :: "heap \<Rightarrow> heap \<Rightarrow> val \<Rightarrow> bool" where
  "fresh_target h H t =
     (length h \<le> length H \<and> (\<forall>x<length h. H ! x = h ! x) \<and>
      (\<exists>T A. own H t T A \<and> A \<subseteq> {length h..<length H}))"

section \<open>Example stores\<close>

text \<open>
  \<open>heap_C1\<close>: \<^verbatim>\<open>inner = {x: 1}\<close> at 0, \<^verbatim>\<open>new Map([["k", inner]])\<close> at 1, the base
  \<^verbatim>\<open>{m: map}\<close> at 2 and the override \<^verbatim>\<open>{}\<close> at 3.
\<close>

definition heap_C1 :: heap where
  "heap_C1 = [Plain [(''x'', Prim (PNum 1))], MapObj [(Prim (PStr ''k''), Ref 0)],
              Plain [(''m'', Ref 1)], Plain []]"


text \<open>\<open>heap_C3\<close>, \<open>heap_C4\<close>: a base at 0 and the override \<^verbatim>\<open>{a: undefined}\<close> at 1.\<close>

definition heap_C3 :: heap where
  "heap_C3 = [Plain [(''a'', Prim (PNum 1))], Plain [(''a'', Undefined)]]"

text \<open>
  \<open>heap_C3w\<close>: the base \<^verbatim>\<open>{a: 1, b: {c: 2}}\<close> at 1 and the override
  \<^verbatim>\<open>{a: 5, b: {c: undefined}}\<close> at 3.
\<close>

definition heap_C3w :: heap where
  "heap_C3w = [Plain [(''c'', Prim (PNum 2))],
               Plain [(''a'', Prim (PNum 1)), (''b'', Ref 0)],
               Plain [(''c'', Undefined)],
               Plain [(''a'', Prim (PNum 5)), (''b'', Ref 2)]]"


text \<open>
  \<open>heap_C5\<close>: \<^verbatim>\<open>inner = {x: 1}\<close> at 0, \<^verbatim>\<open>new Set([inner])\<close> at 1, the value
  \<^verbatim>\<open>{s: set}\<close> at 2 and the override \<^verbatim>\<open>{}\<close> at 3.
\<close>

definition heap_C5 :: heap where
  "heap_C5 = [Plain [(''x'', Prim (PNum 1))], SetObj [Ref 0], Plain [(''s'', Ref 1)], Plain []]"

text \<open>\<open>heap_C6\<close>: the base \<^verbatim>\<open>{a: 1}\<close> at 0 and the array \<^verbatim>\<open>[7]\<close> as the override at 1.\<close>

definition heap_C6 :: heap where
  "heap_C6 = [Plain [(''a'', Prim (PNum 1))], Array [Prim (PNum 7)]]"


text \<open>
  \<open>heap_C8\<close>: \<^verbatim>\<open>inner = {x: 1}\<close> at 0, \<^verbatim>\<open>new Map([["k", inner]])\<close> at 1 and the array
  \<^verbatim>\<open>[inner, true]\<close> at 2.
\<close>

definition heap_C8 :: heap where
  "heap_C8 = [Plain [(''x'', Prim (PNum 1))], MapObj [(Prim (PStr ''k''), Ref 0)],
              Array [Ref 0, Prim (PBool True)]]"


section \<open>The definitions in the form the proofs use\<close>

lemma is_object_simps [simp]:
  "is_object (Ref a)" "\<not> is_object Undefined" "\<not> is_object Null" "\<not> is_object (Prim p)"
  by (simp_all add: is_object_def typeof_object_def)

lemma deepClone_Suc_case:
  "deepClone (Suc n) h v =
     (case v of
        Ref a \<Rightarrow>
          if a < length h then
            (case h ! a of
               Date t \<Rightarrow> Returns (Ref (length h), h @ [Date t])
             | MapObj es \<Rightarrow> Returns (Ref (length h), h @ [MapObj es])
             | SetObj ms \<Rightarrow> Returns (Ref (length h), h @ [SetObj ms])
             | Array es \<Rightarrow>
                 obind (clone_list (deepClone n) h es) (\<lambda>(es', h').
                 Returns (Ref (length h'), h' @ [Array es']))
             | Plain ps \<Rightarrow>
                 obind (clone_props (deepClone n) h ps) (\<lambda>(ps', h').
                 Returns (Ref (length h'), h' @ [Plain ps'])))
          else Stuck
      | _ \<Rightarrow> Returns (v, h))"
  by (cases v) (simp_all add: typeof_object_def)

lemma merge_Suc_case:
  "merge (Suc n) st h target source path =
     (if \<not> is_object source \<or> isArray h source then Returns h
      else
        obind (object_keys h source) (\<lambda>ks.
        merge_keys (merge n st) (deepClone n) st target source path ks h))"
  by (simp add: is_object_def)

declare deepClone.simps(2) [simp del]

declare merge.simps(2) [simp del]

declare deepClone_Suc_case [simp]

declare merge_Suc_case [simp]

section \<open>Shapes and ownership\<close>

inductive_simps shapes_Nil_iff: "shapes h [] ts"

inductive_simps shapes_Cons_iff: "shapes h (v # vs) ts"

inductive_simps owns_Nil_iff: "owns h [] ts A"

inductive_simps owns_Cons_iff: "owns h (v # vs) ts A"

inductive_cases shape_RefE: "shape h (Ref a) t"

inductive_cases own_RefE: "own h (Ref a) t A"

lemma own_shape: "own h v t A \<Longrightarrow> shape h v t"
  and owns_shapes: "owns h vs ts A \<Longrightarrow> shapes h vs ts"
  by (induction rule: own_owns.inducts) (auto intro: shape_shapes.intros)

lemma own_bound: "own h v t A \<Longrightarrow> A \<subseteq> {..<length h}"
  and owns_bound: "owns h vs ts A \<Longrightarrow> A \<subseteq> {..<length h}"
  by (induction rule: own_owns.inducts) auto

lemma shape_ext: "shape h v t \<Longrightarrow> shape (h @ ext) v t"
  and shapes_ext: "shapes h vs ts \<Longrightarrow> shapes (h @ ext) vs ts"
  by (induction rule: shape_shapes.inducts) (auto intro: shape_shapes.intros simp: nth_append)

lemma own_frame:
  "own h v t A \<Longrightarrow> length h \<le> length h' \<Longrightarrow> \<forall>a\<in>A. h' ! a = h ! a \<Longrightarrow> own h' v t A"
  and owns_frame:
  "owns h vs ts A \<Longrightarrow> length h \<le> length h' \<Longrightarrow> \<forall>a\<in>A. h' ! a = h ! a \<Longrightarrow> owns h' vs ts A"
  by (induction rule: own_owns.inducts) (auto intro!: own_owns.intros)

lemma shape_det: "shape h v t \<Longrightarrow> shape h v t' \<Longrightarrow> t = t'"
  and shapes_det: "shapes h vs ts \<Longrightarrow> shapes h vs ts' \<Longrightarrow> ts = ts'"
proof (induction arbitrary: t' and ts' rule: shape_shapes.inducts)
  case (shape_leaf v h)
  then show ?case by (auto elim: shape.cases)
next
  case (shape_date a h d)
  from shape_date.prems shape_date.hyps show ?case by (elim shape_RefE) simp_all
next
  case (shape_map a h es)
  from shape_map.prems shape_map.hyps show ?case by (elim shape_RefE) simp_all
next
  case (shape_set a h ms)
  from shape_set.prems shape_set.hyps show ?case by (elim shape_RefE) simp_all
next
  case (shape_array a h es ts)
  from shape_array.prems shape_array.hyps show ?case
    by (elim shape_RefE) (auto dest: shape_array.IH)
next
  case (shape_plain a h ps ts)
  from shape_plain.prems shape_plain.hyps show ?case
    by (elim shape_RefE) (auto dest: shape_plain.IH)
next
  case (shapes_nil h)
  then show ?case by (simp add: shapes_Nil_iff)
next
  case (shapes_cons h v t vs ts)
  from shapes_cons.prems obtain t2 ts2 where "ts' = t2 # ts2" "shape h v t2" "shapes h vs ts2"
    by (auto simp: shapes_Cons_iff)
  with shapes_cons.IH show ?case by blast
qed


lemma own_ext: "own h v t A \<Longrightarrow> own (h @ ext) v t A"
proof -
  assume o: "own h v t A"
  then have "A \<subseteq> {..<length h}" by (rule own_bound)
  then have "\<forall>a\<in>A. (h @ ext) ! a = h ! a" by (auto simp: nth_append)
  with o show ?thesis by (auto intro: own_frame)
qed

lemma owns_ext: "owns h vs ts A \<Longrightarrow> owns (h @ ext) vs ts A"
proof -
  assume o: "owns h vs ts A"
  then have "A \<subseteq> {..<length h}" by (rule owns_bound)
  then have "\<forall>a\<in>A. (h @ ext) ! a = h ! a" by (auto simp: nth_append)
  with o show ?thesis by (auto intro: owns_frame)
qed

lemma own_Ref_mem: "own h (Ref a) t A \<Longrightarrow> a \<in> A"
  by (erule own_RefE) auto

lemma obind_Returns:
  "obind m f = Returns y \<longleftrightarrow> (\<exists>x. m = Returns x \<and> f x = Returns y)"
  by (cases m) auto

lemma clone_list_post:
  assumes f: "\<And>h v v' h'. f h v = Returns (v', h') \<Longrightarrow> clone_post h v v' h'"
  shows "clone_list f h vs = Returns (vs', h') \<Longrightarrow> clones_post h vs vs' h'"
proof (induction vs arbitrary: h vs' h')
  case Nil
  then show ?case by (auto simp: clones_post_def shapes_Nil_iff owns_Nil_iff)
next
  case (Cons v vs)
  from Cons.prems obtain v1 h1 vs2 where
    1: "f h v = Returns (v1, h1)" and 2: "clone_list f h1 vs = Returns (vs2, h')"
    and 3: "vs' = v1 # vs2"
    by (auto simp: obind_Returns)
  from f[OF 1] obtain e1 t1 A1 where
    a: "h1 = h @ e1" "shape h1 v t1" "own h1 v1 t1 A1" "A1 \<subseteq> {length h..<length h1}"
    by (auto simp: clone_post_def)
  from Cons.IH[OF 2] obtain e2 ts A2 where
    b: "h' = h1 @ e2" "shapes h' vs ts" "owns h' vs2 ts A2" "A2 \<subseteq> {length h1..<length h'}"
    by (auto simp: clones_post_def)
  have "shape h' v t1" using a(2) b(1) by (simp add: shape_ext)
  moreover have "own h' v1 t1 A1" using a(3) b(1) by (simp add: own_ext)
  moreover have "A1 \<inter> A2 = {}" using a(4) b(4) by fastforce
  moreover have "h' = h @ (e1 @ e2)" using a(1) b(1) by simp
  moreover have "A1 \<union> A2 \<subseteq> {length h..<length h'}" using a(1,4) b(1,4) by auto
  ultimately show ?case unfolding clones_post_def 3 using b(2,3)
    by (intro exI[of _ "e1 @ e2"] exI[of _ "t1 # ts"] exI[of _ "A1 \<union> A2"])
       (auto simp: shapes_Cons_iff owns_Cons_iff)
qed

lemma clone_props_list:
  "clone_props f h ps =
     obind (clone_list f h (map snd ps)) (\<lambda>(vs, h'). Returns (zip (map fst ps) vs, h'))"
proof (induction ps arbitrary: h)
  case Nil
  then show ?case by simp
next
  case (Cons p ps)
  obtain k v where p: "p = (k, v)" by (cases p)
  show ?case
  proof (cases "f h v")
    case (Returns x)
    obtain v1 h1 where x: "x = (v1, h1)" by (cases x)
    show ?thesis
      by (cases "clone_list f h1 (map snd ps)") (auto simp: p Returns x Cons.IH)
  qed (simp_all add: p)
qed

lemma clone_list_length:
  "clone_list f h vs = Returns (vs', h') \<Longrightarrow> length vs' = length vs"
  by (induction vs arbitrary: h vs' h') (auto simp: obind_Returns)

lemma deepClone_post:
  "deepClone n h v = Returns (v', h') \<Longrightarrow> clone_post h v v' h'"
proof (induction n arbitrary: h v v' h')
  case 0
  then show ?case by simp
next
  case (Suc n)
  show ?case
  proof (cases v)
    case (Ref a)
    with Suc.prems have a: "a < length h" by (auto split: if_splits)
    show ?thesis
    proof (cases "h ! a")
      case (Plain ps)
      with Suc.prems Ref a obtain vs1 h1 where
        1: "clone_list (deepClone n) h (map snd ps) = Returns (vs1, h1)"
        and 2: "h' = h1 @ [Plain (zip (map fst ps) vs1)]" and 3: "v' = Ref (length h1)"
        by (auto simp: clone_props_list obind_Returns)
      from clone_list_post[of "deepClone n", OF Suc.IH 1] obtain e ts A where
        b: "h1 = h @ e" "shapes h1 (map snd ps) ts" "owns h1 vs1 ts A" "A \<subseteq> {length h..<length h1}"
        by (auto simp: clones_post_def)
      have len: "length vs1 = length ps" using clone_list_length[OF 1] by simp
      have "shapes h' (map snd ps) ts" unfolding 2 by (rule shapes_ext[OF b(2)])
      moreover have "a < length h'" "h' ! a = Plain ps" using a Plain b(1) 2 by (auto simp: nth_append)
      ultimately have "shape h' (Ref a) (TPlain (map fst ps) ts)" by (auto intro: shape_plain)
      moreover have "own h' (Ref (length h1)) (TPlain (map fst (zip (map fst ps) vs1)) ts) (insert (length h1) A)"
        using b(3,4) 2 len by (intro own_plain) (auto intro: owns_ext)
      moreover have "insert (length h1) A \<subseteq> {length h..<length h'}" using b(1,4) 2 by auto
      ultimately show ?thesis unfolding clone_post_def 3 Ref using b(1) 2 len
        by (intro exI[of _ "e @ [Plain (zip (map fst ps) vs1)]"] exI[of _ "TPlain (map fst ps) ts"]
              exI[of _ "insert (length h1) A"]) simp
    next
      case (Array es)
      with Suc.prems Ref a obtain vs1 h1 where
        1: "clone_list (deepClone n) h es = Returns (vs1, h1)"
        and 2: "h' = h1 @ [Array vs1]" and 3: "v' = Ref (length h1)"
        by (auto simp: obind_Returns)
      from clone_list_post[of "deepClone n", OF Suc.IH 1] obtain e ts A where
        b: "h1 = h @ e" "shapes h1 es ts" "owns h1 vs1 ts A" "A \<subseteq> {length h..<length h1}"
        by (auto simp: clones_post_def)
      have "shapes h' es ts" unfolding 2 by (rule shapes_ext[OF b(2)])
      moreover have "a < length h'" "h' ! a = Array es" using a Array b(1) 2 by (auto simp: nth_append)
      ultimately have "shape h' (Ref a) (TArray ts)" by (auto intro: shape_array)
      moreover have "own h' (Ref (length h1)) (TArray ts) (insert (length h1) A)"
        using b(3,4) 2 by (intro own_array) (auto intro: owns_ext)
      moreover have "insert (length h1) A \<subseteq> {length h..<length h'}" using b(1,4) 2 by auto
      ultimately show ?thesis unfolding clone_post_def 3 Ref using b(1) 2
        by (intro exI[of _ "e @ [Array vs1]"] exI[of _ "TArray ts"]
              exI[of _ "insert (length h1) A"]) simp
    next
      case (Date d)
      with Suc.prems Ref a have 2: "h' = h @ [Date d]" "v' = Ref (length h)" by auto
      have "shape h' (Ref a) (TDate d)" using a Date 2 by (auto intro!: shape_date simp: nth_append)
      moreover have "own h' (Ref (length h)) (TDate d) {length h}" using 2 by (auto intro!: own_date)
      ultimately show ?thesis unfolding clone_post_def 2(2) Ref using 2(1)
        by (intro exI[of _ "[Date d]"] exI[of _ "TDate d"] exI[of _ "{length h}"]) simp
    next
      case (MapObj es)
      with Suc.prems Ref a have 2: "h' = h @ [MapObj es]" "v' = Ref (length h)" by auto
      have "shape h' (Ref a) (TMap es)" using a MapObj 2 by (auto intro!: shape_map simp: nth_append)
      moreover have "own h' (Ref (length h)) (TMap es) {length h}" using 2 by (auto intro!: own_map)
      ultimately show ?thesis unfolding clone_post_def 2(2) Ref using 2(1)
        by (intro exI[of _ "[MapObj es]"] exI[of _ "TMap es"] exI[of _ "{length h}"]) simp
    next
      case (SetObj ms)
      with Suc.prems Ref a have 2: "h' = h @ [SetObj ms]" "v' = Ref (length h)" by auto
      have "shape h' (Ref a) (TSet ms)" using a SetObj 2 by (auto intro!: shape_set simp: nth_append)
      moreover have "own h' (Ref (length h)) (TSet ms) {length h}" using 2 by (auto intro!: own_set)
      ultimately show ?thesis unfolding clone_post_def 2(2) Ref using 2(1)
        by (intro exI[of _ "[SetObj ms]"] exI[of _ "TSet ms"] exI[of _ "{length h}"]) simp
    qed
  qed (use Suc.prems in \<open>auto simp: clone_post_def intro!: exI[of _ "[]"] exI[of _ "TLeaf v"] own_leaf shape_leaf\<close>)
qed

lemma set_prop_Returns:
  "set_prop h target key v = Returns h' \<longleftrightarrow>
     (\<exists>a ps. target = Ref a \<and> a < length h \<and> h ! a = Plain ps \<and>
        h' = h[a := Plain (AList.update key v ps)])"
  by (auto simp: set_prop_def split: val.splits obj.splits)

lemma get_prop_object:
  "get_prop h target key = Returns tv \<Longrightarrow> is_object tv \<Longrightarrow>
     \<exists>a ps. target = Ref a \<and> a < length h \<and> h ! a = Plain ps \<and> map_of ps key = Some tv"
  by (auto simp: get_prop_def split: val.splits obj.splits if_splits option.splits)

lemma merge_key_gets:
  assumes "merge_key rec dc st target source path key h = Returns h'"
  shows "\<exists>sv tv. get_prop h source key = Returns sv \<and> get_prop h target key = Returns tv"
proof (cases "get_prop h source key")
  case (Returns sv)
  then show ?thesis using assms
    by (cases "get_prop h target key") (simp_all add: merge_key_def)
qed (use assms in \<open>simp_all add: merge_key_def\<close>)

lemma merge_key_unfold:
  assumes "get_prop h source key = Returns sv" "get_prop h target key = Returns tv"
  shows "merge_key rec dc st target source path key h =
     (if st (currentPath path key) = Some ''safe'' \<and> sv = Undefined then Returns h
      else if st (currentPath path key) = None \<and> sv = Undefined then Returns h
      else if st (currentPath path key) = Some ''replace'' \<or> isArray h sv then
        obind (dc h sv) (\<lambda>(v', h1). set_prop h1 target key v')
      else if is_object sv \<and> is_object tv then rec h tv sv (currentPath path key)
      else obind (dc h sv) (\<lambda>(v', h1). set_prop h1 target key v'))"
proof -
  have a: "(\<not> typeof_object sv \<and> sv = Undefined) = (sv = Undefined)"
    by (auto simp: typeof_object_def)
  have b: "(typeof_object sv \<and> sv \<noteq> Null \<and> typeof_object tv \<and> tv \<noteq> Null) =
      (is_object sv \<and> is_object tv)"
    by (auto simp: is_object_def)
  show ?thesis by (simp only: merge_key_def Let_def assms obind.simps a b)
qed

lemma cascadeE:
  assumes "(if c1 then a else if c2 then a else if c3 then b else if c4 then c else b) = r"
  obtains "a = r" | "b = r" | "c4" "c = r"
  using assms by (auto split: if_splits)

lemma merge_key_cases:
  assumes "merge_key rec dc st target source path key h = Returns h'"
  obtains (skipped) "h' = h"
  | (written) sv v' h1 where "get_prop h source key = Returns sv" "dc h sv = Returns (v', h1)"
      "set_prop h1 target key v' = Returns h'"
  | (recursed) sv tv where "get_prop h source key = Returns sv" "get_prop h target key = Returns tv"
      "is_object sv" "is_object tv" "rec h tv sv (currentPath path key) = Returns h'"
proof -
  from merge_key_gets[OF assms] obtain sv tv where
    g: "get_prop h source key = Returns sv" "get_prop h target key = Returns tv" by blast
  note u = assms[unfolded merge_key_unfold[OF g]]
  from u show thesis
  proof (cases rule: cascadeE)
    case 1
    then show ?thesis by (intro skipped) simp
  next
    case 2
    then obtain v' h1 where "dc h sv = Returns (v', h1)" "set_prop h1 target key v' = Returns h'"
      by (auto simp: obind_Returns)
    with g(1) show ?thesis by (rule written)
  next
    case 3
    with g show ?thesis by (intro recursed) simp_all
  qed
qed

lemma owns_lookup:
  "owns h (map snd ps) ts B \<Longrightarrow> map_of ps key = Some v \<Longrightarrow> \<exists>t A. own h v t A \<and> A \<subseteq> B"
proof (induction ps arbitrary: ts B)
  case Nil
  then show ?case by simp
next
  case (Cons p ps)
  obtain k v0 where p: "p = (k, v0)" by (cases p)
  from Cons.prems(1) obtain t0 A0 ts0 B0 where
    d: "ts = t0 # ts0" "B = A0 \<union> B0" "own h v0 t0 A0" "owns h (map snd ps) ts0 B0"
    by (auto simp: p owns_Cons_iff)
  show ?case
  proof (cases "k = key")
    case True
    with Cons.prems(2) p have "v = v0" by simp
    with d show ?thesis by auto
  next
    case False
    with Cons.prems(2) p have "map_of ps key = Some v" by simp
    from Cons.IH[OF d(4) this] d(2) show ?thesis by blast
  qed
qed

lemma owns_update:
  "owns h (map snd ps) ts B \<Longrightarrow> own h v' t' A' \<Longrightarrow> A' \<inter> B = {} \<Longrightarrow>
     \<exists>ts' B'. owns h (map snd (AList.update key v' ps)) ts' B' \<and> B' \<subseteq> B \<union> A'"
proof (induction ps arbitrary: ts B)
  case Nil
  then have "owns h [v'] [t'] (A' \<union> {})"
    by (intro owns_cons owns_nil) auto
  then show ?case by auto
next
  case (Cons p ps)
  obtain k v0 where p: "p = (k, v0)" by (cases p)
  from Cons.prems(1) obtain t0 A0 ts0 B0 where
    d: "ts = t0 # ts0" "B = A0 \<union> B0" "own h v0 t0 A0" "owns h (map snd ps) ts0 B0" "A0 \<inter> B0 = {}"
    by (auto simp: p owns_Cons_iff)
  show ?case
  proof (cases "k = key")
    case True
    have "owns h (v' # map snd ps) (t' # ts0) (A' \<union> B0)"
      using Cons.prems(2,3) d by (intro owns_cons) auto
    then show ?thesis using True p d(2) by auto
  next
    case False
    from Cons.prems(3) d(2) have "A' \<inter> B0 = {}" by auto
    from Cons.IH[OF d(4) Cons.prems(2) this] obtain ts1 B1 where
      1: "owns h (map snd (AList.update key v' ps)) ts1 B1" "B1 \<subseteq> B0 \<union> A'" by auto
    have "A0 \<inter> B1 = {}" using 1(2) d(5) d(2) Cons.prems(3) by auto
    then have "owns h (v0 # map snd (AList.update key v' ps)) (t0 # ts1) (A0 \<union> B1)"
      using d(3) 1(1) by (intro owns_cons)
    then show ?thesis using False p d(2) 1(2) by auto
  qed
qed

section \<open>The merge writes only what its target owns\<close>

lemma rec_okD: "rec_ok rec \<Longrightarrow> rec h t s p = Returns h' \<Longrightarrow> merge_post h t h'"
  by (simp add: rec_ok_def)

lemma dc_okD: "dc_ok dc \<Longrightarrow> dc h v = Returns (v', h') \<Longrightarrow> clone_post h v v' h'"
  by (simp add: dc_ok_def)

lemma merge_post_refl: "merge_post h target h"
  by (auto simp: merge_post_def)

lemma merge_post_trans:
  assumes 1: "merge_post h target h1" and 2: "merge_post h1 target h2"
  shows "merge_post h target h2"
  unfolding merge_post_def
proof (intro conjI allI impI)
  show "length h \<le> length h2" using 1 2 by (auto simp: merge_post_def)
next
  fix t A assume o: "own h target t A"
  with 1 obtain t1 A1 where o1: "own h1 target t1 A1" "A1 \<subseteq> A \<union> {length h..<length h1}"
    and f1: "\<forall>x<length h. x \<notin> A \<longrightarrow> h1 ! x = h ! x" and l1: "length h \<le> length h1"
    unfolding merge_post_def by blast
  from 2 o1(1) obtain t2 A2 where o2: "own h2 target t2 A2" "A2 \<subseteq> A1 \<union> {length h1..<length h2}"
    and f2: "\<forall>x<length h1. x \<notin> A1 \<longrightarrow> h2 ! x = h1 ! x" and l2: "length h1 \<le> length h2"
    unfolding merge_post_def by blast
  have "A2 \<subseteq> A \<union> {length h..<length h2}" using o1(2) o2(2) l1 l2 by fastforce
  with o2(1) show "\<exists>t' A'. own h2 target t' A' \<and> A' \<subseteq> A \<union> {length h..<length h2}" by blast
  fix x assume x: "x < length h" "x \<notin> A"
  then have "x \<notin> A1" using o1(2) by auto
  with x f1 f2 l1 show "h2 ! x = h ! x" by auto
qed

lemma merge_post_len: "merge_post h v h' \<Longrightarrow> length h \<le> length h'"
  by (simp add: merge_post_def)

lemma merge_post_own:
  "merge_post h v h' \<Longrightarrow> own h v t A \<Longrightarrow>
     \<exists>t' A'. own h' v t' A' \<and> A' \<subseteq> A \<union> {length h..<length h'}"
  unfolding merge_post_def by (elim conjE allE[of _ t] allE[of _ A]) simp

lemma merge_post_frame:
  "merge_post h v h' \<Longrightarrow> own h v t A \<Longrightarrow> x < length h \<Longrightarrow> x \<notin> A \<Longrightarrow> h' ! x = h ! x"
  unfolding merge_post_def by (elim conjE allE[of _ t] allE[of _ A]) simp

lemma owns_modify:
  assumes post: "merge_post h v h'"
  shows "owns h (map snd ps) ts B \<Longrightarrow> map_of ps key = Some v \<Longrightarrow>
     \<exists>ts' B'. owns h' (map snd ps) ts' B' \<and> B' \<subseteq> B \<union> {length h..<length h'}"
proof (induction ps arbitrary: ts B)
  case Nil
  then show ?case by simp
next
  case (Cons p ps)
  obtain k v0 where p: "p = (k, v0)" by (cases p)
  from Cons.prems(1) obtain t0 A0 ts0 B0 where
    d: "ts = t0 # ts0" "B = A0 \<union> B0" "own h v0 t0 A0" "owns h (map snd ps) ts0 B0" "A0 \<inter> B0 = {}"
    by (auto simp: p owns_Cons_iff)
  have len: "length h \<le> length h'" using post by (rule merge_post_len)
  have bA: "\<And>x. x \<in> A0 \<Longrightarrow> x < length h" using own_bound[OF d(3)] by auto
  have bB: "\<And>x. x \<in> B0 \<Longrightarrow> x < length h" using owns_bound[OF d(4)] by auto
  have dj: "\<And>x. x \<in> A0 \<Longrightarrow> x \<notin> B0" using d(5) by auto
  show ?case
  proof (cases "k = key")
    case True
    with Cons.prems(2) p have v: "v = v0" by simp
    from merge_post_own[OF post d(3)[folded v]] obtain t1 A1 where
      1: "own h' v0 t1 A1" "A1 \<subseteq> A0 \<union> {length h..<length h'}" unfolding v by blast
    have "\<forall>a\<in>B0. h' ! a = h ! a"
    proof
      fix a assume "a \<in> B0"
      then have "a < length h" "a \<notin> A0" using bB dj by auto
      then show "h' ! a = h ! a" by (rule merge_post_frame[OF post d(3)[folded v]])
    qed
    with d(4) len have "owns h' (map snd ps) ts0 B0" by (rule owns_frame)
    moreover have "A1 \<inter> B0 = {}"
    proof (rule ccontr)
      assume "A1 \<inter> B0 \<noteq> {}"
      then obtain x where x: "x \<in> A1" "x \<in> B0" by auto
      from x(2) have "x < length h" "x \<notin> A0" using bB dj by auto
      with x(1) 1(2) show False by auto
    qed
    ultimately have "owns h' (v0 # map snd ps) (t1 # ts0) (A1 \<union> B0)"
      using 1(1) by (intro owns_cons)
    moreover have "A1 \<union> B0 \<subseteq> B \<union> {length h..<length h'}" using 1(2) d(2) by auto
    ultimately show ?thesis unfolding p by (intro exI[of _ "t1 # ts0"] exI[of _ "A1 \<union> B0"]) simp
  next
    case False
    with Cons.prems(2) p have m: "map_of ps key = Some v" by simp
    from Cons.IH[OF d(4) m] obtain ts1 B1 where
      1: "owns h' (map snd ps) ts1 B1" "B1 \<subseteq> B0 \<union> {length h..<length h'}" by blast
    from owns_lookup[OF d(4) m] obtain t A where 2: "own h v t A" "A \<subseteq> B0" by blast
    have "\<forall>a\<in>A0. h' ! a = h ! a"
    proof
      fix a assume "a \<in> A0"
      then have "a < length h" "a \<notin> A" using bA dj 2(2) by auto
      then show "h' ! a = h ! a" by (rule merge_post_frame[OF post 2(1)])
    qed
    with d(3) len have "own h' v0 t0 A0" by (rule own_frame)
    moreover have "A0 \<inter> B1 = {}"
    proof (rule ccontr)
      assume "A0 \<inter> B1 \<noteq> {}"
      then obtain x where x: "x \<in> A0" "x \<in> B1" by auto
      from x(1) have "x < length h" "x \<notin> B0" using bA dj by auto
      with x(2) 1(2) show False by auto
    qed
    ultimately have "owns h' (v0 # map snd ps) (t0 # ts1) (A0 \<union> B1)"
      using 1(1) by (intro owns_cons)
    moreover have "A0 \<union> B1 \<subseteq> B \<union> {length h..<length h'}" using 1(2) d(2) by auto
    ultimately show ?thesis unfolding p by (intro exI[of _ "t0 # ts1"] exI[of _ "A0 \<union> B1"]) simp
  qed
qed

lemma own_Plain_inv:
  "own h (Ref a) t A \<Longrightarrow> h ! a = Plain ps \<Longrightarrow>
     \<exists>ts B. t = TPlain (map fst ps) ts \<and> A = insert a B \<and> owns h (map snd ps) ts B \<and> a \<notin> B
       \<and> a < length h"
  by (erule own_RefE) auto

lemma merge_key_post:
  assumes rec: "rec_ok rec"
    and dc: "dc_ok dc"
    and run: "merge_key rec dc st target source path key h = Returns h'"
  shows "merge_post h target h'"
  using run
proof (cases rule: merge_key_cases)
  case skipped
  then show ?thesis by (simp add: merge_post_refl)
next
  case (written sv v' h1)
  from dc_okD[OF dc written(2)] obtain e t' A' where
    c: "h1 = h @ e" "own h1 v' t' A'" "A' \<subseteq> {length h..<length h1}"
    by (auto simp: clone_post_def)
  from written(3) obtain a ps where
    s: "target = Ref a" "a < length h1" "h1 ! a = Plain ps"
       "h' = h1[a := Plain (AList.update key v' ps)]"
    by (auto simp: set_prop_Returns)
  have len: "length h \<le> length h'" "length h' = length h1" using c(1) s(4) by auto
  show ?thesis unfolding merge_post_def s(1)
  proof (intro conjI allI impI)
    show "length h \<le> length h'" by (rule len)
  next
    fix t A assume o: "own h (Ref a) t A"
    have bA: "\<And>x. x \<in> A \<Longrightarrow> x < length h" using own_bound[OF o] by auto
    have aA: "a \<in> A" using o by (rule own_Ref_mem)
    have o1: "own h1 (Ref a) t A" unfolding c(1) using o by (rule own_ext)
    from own_Plain_inv[OF o1 s(3)] obtain ts B where
      i: "t = TPlain (map fst ps) ts" "A = insert a B" "owns h1 (map snd ps) ts B" "a \<notin> B"
      by blast
    have frB: "\<forall>x\<in>B. h' ! x = h1 ! x"
    proof
      fix x assume "x \<in> B"
      then have "a \<noteq> x" using i(4) by auto
      then show "h' ! x = h1 ! x" unfolding s(4) by (rule nth_list_update_neq)
    qed
    have oB: "owns h' (map snd ps) ts B"
      by (rule owns_frame[OF i(3)]) (use len(2) frB in auto)
    have "a \<notin> A'" using c(3) bA[OF aA] by auto
    have frA: "\<forall>x\<in>A'. h' ! x = h1 ! x"
    proof
      fix x assume "x \<in> A'"
      then have "a \<noteq> x" using \<open>a \<notin> A'\<close> by auto
      then show "h' ! x = h1 ! x" unfolding s(4) by (rule nth_list_update_neq)
    qed
    have oA: "own h' v' t' A'"
      by (rule own_frame[OF c(2)]) (use len(2) frA in auto)
    have "A' \<inter> B = {}"
    proof (rule ccontr)
      assume "A' \<inter> B \<noteq> {}"
      then obtain x where x: "x \<in> A'" "x \<in> B" by auto
      from x(2) have "x < length h" using bA i(2) by auto
      with x(1) c(3) show False by auto
    qed
    from owns_update[OF oB oA this, of key] obtain ts' B' where
      u: "owns h' (map snd (AList.update key v' ps)) ts' B'" "B' \<subseteq> B \<union> A'" by blast
    have "a \<notin> B'" using u(2) i(4) \<open>a \<notin> A'\<close> by auto
    moreover have "a < length h'" "h' ! a = Plain (AList.update key v' ps)" using s(2,4) by auto
    ultimately have "own h' (Ref a) (TPlain (map fst (AList.update key v' ps)) ts') (insert a B')"
      using u(1) by (intro own_plain)
    moreover have "insert a B' \<subseteq> A \<union> {length h..<length h'}"
      using u(2) i(2) c(3) len(2) by auto
    ultimately show "\<exists>t' A'. own h' (Ref a) t' A' \<and> A' \<subseteq> A \<union> {length h..<length h'}" by blast
    fix x assume x: "x < length h" "x \<notin> A"
    then have "x \<noteq> a" using aA by auto
    then show "h' ! x = h ! x" using x(1) s(4) c(1) by (auto simp: nth_append)
  qed
next
  case (recursed sv tv)
  from get_prop_object[OF recursed(2,4)] obtain a ps where
    g: "target = Ref a" "a < length h" "h ! a = Plain ps" "map_of ps key = Some tv" by blast
  have post: "merge_post h tv h'" using recursed(5) by (rule rec_okD[OF rec])
  have len: "length h \<le> length h'" using post by (rule merge_post_len)
  show ?thesis unfolding merge_post_def g(1)
  proof (intro conjI allI impI)
    show "length h \<le> length h'" by (rule len)
  next
    fix t A assume o: "own h (Ref a) t A"
    from own_Plain_inv[OF o g(3)] obtain ts B where
      i: "t = TPlain (map fst ps) ts" "A = insert a B" "owns h (map snd ps) ts B" "a \<notin> B"
      by blast
    from owns_lookup[OF i(3) g(4)] obtain t0 A0 where l: "own h tv t0 A0" "A0 \<subseteq> B" by blast
    from owns_modify[OF post i(3) g(4)] obtain ts' B' where
      m: "owns h' (map snd ps) ts' B'" "B' \<subseteq> B \<union> {length h..<length h'}" by blast
    have "a \<notin> A0" using l(2) i(4) by auto
    with g(2) have ha: "h' ! a = Plain ps" using merge_post_frame[OF post l(1)] g(3) by simp
    have "a \<notin> B'" using m(2) i(4) g(2) by auto
    with m(1) ha g(2) len have "own h' (Ref a) (TPlain (map fst ps) ts') (insert a B')"
      by (intro own_plain) auto
    moreover have "insert a B' \<subseteq> A \<union> {length h..<length h'}" using m(2) i(2) by auto
    ultimately show "\<exists>t' A'. own h' (Ref a) t' A' \<and> A' \<subseteq> A \<union> {length h..<length h'}" by blast
    fix x assume x: "x < length h" "x \<notin> A"
    then have "x \<notin> A0" using l(2) i(2) by auto
    with x(1) show "h' ! x = h ! x" by (rule merge_post_frame[OF post l(1)])
  qed
qed

lemma merge_keys_post:
  assumes rec: "rec_ok rec"
    and dc: "dc_ok dc"
  shows "merge_keys rec dc st target source path ks h = Returns h' \<Longrightarrow> merge_post h target h'"
proof (induction ks arbitrary: h)
  case Nil
  then show ?case by (simp add: merge_post_refl)
next
  case (Cons key ks)
  from Cons.prems obtain h1 where
    1: "merge_key rec dc st target source path key h = Returns h1"
    and 2: "merge_keys rec dc st target source path ks h1 = Returns h'"
    by (auto simp: obind_Returns)
  from merge_key_post[OF rec dc 1] Cons.IH[OF 2] show ?case
    by (rule merge_post_trans)
qed

lemma merge_merge_post:
  "merge n st h target source path = Returns h' \<Longrightarrow> merge_post h target h'"
proof (induction n arbitrary: h target source path h')
  case 0
  then show ?case by simp
next
  case (Suc n)
  show ?case
  proof (cases "\<not> is_object source \<or> isArray h source")
    case True
    with Suc.prems show ?thesis by (simp add: merge_post_refl)
  next
    case False
    with Suc.prems obtain ks where
      k: "merge_keys (merge n st) (deepClone n) st target source path ks h = Returns h'"
      by (auto simp: obind_Returns)
    have r: "rec_ok (merge n st)" unfolding rec_ok_def using Suc.IH by blast
    have d: "dc_ok (deepClone n)" unfolding dc_ok_def using deepClone_post by blast
    from r d k show ?thesis by (rule merge_keys_post)
  qed
qed

section \<open>Well-formed stores and sibling properties\<close>

lemma wf_heap_nth: "wf_heap h \<Longrightarrow> a < length h \<Longrightarrow> obj_ok h (h ! a)"
  by (simp add: wf_heap_def list_all_length)



lemma prefix_from_nth:
  assumes "length h \<le> length h'" "\<forall>x<length h. h' ! x = h ! x"
  shows "\<exists>ext. h' = h @ ext"
proof -
  have "take (length h) h' = h" using assms by (intro nth_equalityI) auto
  then have "h' = h @ drop (length h) h'" by (metis append_take_drop_id)
  then show ?thesis ..
qed




section \<open>The root call\<close>

lemma mergeConfig_Returns:
  "mergeConfig n options h config newConfig = Returns (r, h') \<longleftrightarrow>
     (\<exists>h1. deepClone n h config = Returns (r, h1) \<and>
           merge n (strategies_of options) h1 r newConfig [] = Returns h')"
  by (auto simp: mergeConfig_def obind_Returns)

text \<open>The store after \<^verbatim>\<open>mergeConfig\<close> extends the store before it: no object that existed
  before the call is written.\<close>

lemma mergeConfig_extends:
  assumes "mergeConfig n options h config newConfig = Returns (r, h')"
  shows "\<exists>ext. h' = h @ ext"
proof -
  from assms obtain h1 where
    1: "deepClone n h config = Returns (r, h1)"
    and 2: "merge n (strategies_of options) h1 r newConfig [] = Returns h'"
    by (auto simp: mergeConfig_Returns)
  from deepClone_post[OF 1] obtain e t A where
    c: "h1 = h @ e" "own h1 r t A" "A \<subseteq> {length h..<length h1}"
    by (auto simp: clone_post_def)
  note post = merge_merge_post[OF 2]
  have "length h \<le> length h'" using merge_post_len[OF post] c(1) by simp
  moreover have "\<forall>x<length h. h' ! x = h ! x"
  proof (intro allI impI)
    fix x assume x: "x < length h"
    then have "x < length h1" "x \<notin> A" using c(1,3) by auto
    then have "h' ! x = h1 ! x" by (rule merge_post_frame[OF post c(2)])
    then show "h' ! x = h ! x" using x c(1) by (simp add: nth_append)
  qed
  ultimately show ?thesis by (rule prefix_from_nth)
qed



lemma owns_length: "owns h vs ts B \<Longrightarrow> length ts = length vs"
  by (induction vs arbitrary: ts B) (auto simp: owns_Nil_iff owns_Cons_iff)



lemma merge_rec_ok: "rec_ok (merge n st)"
  unfolding rec_ok_def using merge_merge_post by blast

lemma deepClone_dc_ok: "dc_ok (deepClone n)"
  unfolding dc_ok_def using deepClone_post by blast


lemma get_prop_Plain:
  "a < length h \<Longrightarrow> h ! a = Plain ps \<Longrightarrow>
     get_prop h (Ref a) key = Returns (case map_of ps key of None \<Rightarrow> Undefined | Some x \<Rightarrow> x)"
  by (simp add: get_prop_def)

lemma shape_is_object: "shape h v t \<Longrightarrow> is_object v \<longleftrightarrow> (\<forall>x. t \<noteq> TLeaf x)"
  by (cases v) (auto elim: shape.cases)




lemma post_state:
  assumes post: "merge_post h1 t ha" and o: "own h1 t T A" and A: "A \<subseteq> {L..<length h1}"
    and L: "L \<le> length h1"
  shows "\<exists>Ta Aa. own ha t Ta Aa \<and> Aa \<subseteq> {L..<length ha} \<and> length h1 \<le> length ha \<and>
     (\<forall>x<L. ha ! x = h1 ! x)"
proof -
  have len: "length h1 \<le> length ha" using post by (rule merge_post_len)
  from merge_post_own[OF post o] obtain Ta Aa where
    1: "own ha t Ta Aa" "Aa \<subseteq> A \<union> {length h1..<length ha}" by blast
  have "Aa \<subseteq> {L..<length ha}" using 1(2) A L len by fastforce
  moreover have "\<forall>x<L. ha ! x = h1 ! x"
  proof (intro allI impI)
    fix x assume "x < L"
    then have "x < length h1" "x \<notin> A" using A L by auto
    then show "ha ! x = h1 ! x" by (rule merge_post_frame[OF post o])
  qed
  ultimately show ?thesis using 1(1) len by blast
qed








lemma isArray_agree:
  assumes "isArray h v" "length h \<le> length ha" "\<forall>x<length h. ha ! x = h ! x"
  shows "isArray ha v"
  using assms by (cases v) (auto simp: isArray_def)


section \<open>Budgets: monotonicity and termination of deepClone\<close>

lemma clone_list_mono:
  assumes "mono_step f g"
  shows "clone_list f h vs = Returns r \<Longrightarrow> clone_list g h vs = Returns r"
proof (induction vs arbitrary: h r)
  case Nil
  then show ?case by simp
next
  case (Cons v vs)
  from Cons.prems obtain v1 h1 vs2 h2 where
    1: "f h v = Returns (v1, h1)" and 2: "clone_list f h1 vs = Returns (vs2, h2)"
    and 3: "r = (v1 # vs2, h2)"
    by (auto simp: obind_Returns)
  from assms 1 have "g h v = Returns (v1, h1)" by (simp add: mono_step_def)
  with Cons.IH[OF 2] 3 show ?case by simp
qed

lemma deepClone_Suc: "deepClone n h v = Returns r \<Longrightarrow> deepClone (Suc n) h v = Returns r"
proof (induction n arbitrary: h v r)
  case 0
  then show ?case by simp
next
  case (Suc n)
  have m: "mono_step (deepClone n) (deepClone (Suc n))"
    unfolding mono_step_def using Suc.IH by blast
  show ?case
  proof (cases v)
    case (Ref a)
    with Suc.prems have a: "a < length h" by (auto split: if_splits)
    show ?thesis
    proof (cases "h ! a")
      case (Plain ps)
      with Suc.prems Ref a obtain vs1 h1 where
        1: "clone_list (deepClone n) h (map snd ps) = Returns (vs1, h1)"
        and 2: "r = (Ref (length h1), h1 @ [Plain (zip (map fst ps) vs1)])"
        by (auto simp: clone_props_list obind_Returns)
      from clone_list_mono[OF m 1] 2 Ref a Plain show ?thesis
        by (simp add: clone_props_list)
    next
      case (Array es)
      with Suc.prems Ref a obtain vs1 h1 where
        1: "clone_list (deepClone n) h es = Returns (vs1, h1)"
        and 2: "r = (Ref (length h1), h1 @ [Array vs1])"
        by (auto simp: obind_Returns)
      from clone_list_mono[OF m 1] 2 Ref a Array show ?thesis by simp
    qed (use Suc.prems Ref a in auto)
  qed (use Suc.prems in auto)
qed

lemma deepClone_mono: "deepClone n h v = Returns r \<Longrightarrow> n \<le> m \<Longrightarrow> deepClone m h v = Returns r"
proof (induction m)
  case 0
  then show ?case by simp
next
  case (Suc m)
  show ?case
  proof (cases "n = Suc m")
    case True
    with Suc.prems show ?thesis by simp
  next
    case False
    with Suc.prems have "n \<le> m" by simp
    from deepClone_Suc[OF Suc.IH[OF Suc.prems(1) this]] show ?thesis .
  qed
qed

lemma clone_list_no_throw:
  assumes "\<And>h v. f h v \<noteq> Throws e"
  shows "clone_list f h vs \<noteq> Throws e"
proof (induction vs arbitrary: h)
  case Nil
  then show ?case by simp
next
  case (Cons v vs)
  show ?case
  proof (cases "f h v")
    case (Returns x)
    obtain v1 h1 where x: "x = (v1, h1)" by (cases x)
    show ?thesis using Cons.IH[of h1] Returns x by (cases "clone_list f h1 vs") auto
  qed (use assms[of h v] in auto)
qed

lemma deepClone_no_throw: "deepClone n h v \<noteq> Throws e"
proof (induction n arbitrary: h v)
  case 0
  then show ?case by simp
next
  case (Suc n)
  have l: "\<And>h vs. clone_list (deepClone n) h vs \<noteq> Throws e"
    by (rule clone_list_no_throw) (rule Suc.IH)
  show ?case
  proof (cases v)
    case (Ref a)
    show ?thesis
    proof (cases "a < length h")
      case True
      show ?thesis
      proof (cases "h ! a")
        case (Plain ps)
        then show ?thesis using Ref True l[of h "map snd ps"]
          by (cases "clone_list (deepClone n) h (map snd ps)") (auto simp: clone_props_list)
      next
        case (Array es)
        then show ?thesis using Ref True l[of h es]
          by (cases "clone_list (deepClone n) h es") auto
      qed (use Ref True in auto)
    qed (use Ref in auto)
  qed auto
qed

text \<open>A value with a shape (its arrays and plain objects nest to a finite depth) is cloned
  with a large enough budget, in this store and in every extension of it.\<close>

lemma shape_deepClone:
  "shape h v t \<Longrightarrow> \<exists>n r. deepClone n (h @ e) v = Returns r"
  and shapes_clone_list:
  "shapes h vs ts \<Longrightarrow> \<exists>n r. clone_list (deepClone n) (h @ e) vs = Returns r"
proof (induction arbitrary: e and e rule: shape_shapes.inducts)
  case (shape_leaf v h)
  then have "deepClone (Suc 0) (h @ e) v = Returns (v, h @ e)" by (cases v) auto
  then show ?case by blast
next
  case (shape_date a h d)
  then have "deepClone (Suc 0) (h @ e) (Ref a) = Returns (Ref (length (h @ e)), (h @ e) @ [Date d])"
    by (simp add: nth_append)
  then show ?case by blast
next
  case (shape_map a h es)
  then have "deepClone (Suc 0) (h @ e) (Ref a) = Returns (Ref (length (h @ e)), (h @ e) @ [MapObj es])"
    by (simp add: nth_append)
  then show ?case by blast
next
  case (shape_set a h ms)
  then have "deepClone (Suc 0) (h @ e) (Ref a) = Returns (Ref (length (h @ e)), (h @ e) @ [SetObj ms])"
    by (simp add: nth_append)
  then show ?case by blast
next
  case (shape_array a h es ts)
  from shape_array.IH[of e] obtain n vs1 h1 where
    "clone_list (deepClone n) (h @ e) es = Returns (vs1, h1)" by auto
  with shape_array.hyps have "deepClone (Suc n) (h @ e) (Ref a) =
      Returns (Ref (length h1), h1 @ [Array vs1])"
    by (simp add: nth_append)
  then show ?case by blast
next
  case (shape_plain a h ps ts)
  from shape_plain.IH[of e] obtain n vs1 h1 where
    "clone_list (deepClone n) (h @ e) (map snd ps) = Returns (vs1, h1)" by auto
  with shape_plain.hyps have "deepClone (Suc n) (h @ e) (Ref a) =
      Returns (Ref (length h1), h1 @ [Plain (zip (map fst ps) vs1)])"
    by (simp add: nth_append clone_props_list)
  then show ?case by blast
next
  case (shapes_nil h)
  then show ?case by simp
next
  case (shapes_cons h v t vs ts)
  from shapes_cons.IH(1)[of e] obtain n1 v1 h1 where
    1: "deepClone n1 (h @ e) v = Returns (v1, h1)" by auto
  from deepClone_post[OF 1] obtain e1 where "h1 = (h @ e) @ e1" by (auto simp: clone_post_def)
  then have h1: "h1 = h @ (e @ e1)" by simp
  from shapes_cons.IH(2)[of "e @ e1"] obtain n2 r2 where
    2: "clone_list (deepClone n2) h1 vs = Returns r2" unfolding h1 by auto
  obtain vs2 h2 where r2: "r2 = (vs2, h2)" by (cases r2)
  let ?n = "max n1 n2"
  have "deepClone ?n (h @ e) v = Returns (v1, h1)" using 1 by (rule deepClone_mono) simp
  moreover have "mono_step (deepClone n2) (deepClone ?n)"
    unfolding mono_step_def by (auto intro: deepClone_mono)
  from clone_list_mono[OF this 2] have "clone_list (deepClone ?n) h1 vs = Returns (vs2, h2)"
    using r2 by simp
  ultimately have "clone_list (deepClone ?n) (h @ e) (v # vs) = Returns (v1 # vs2, h2)" by simp
  then show ?case by blast
qed

lemma cyclic_never_returns: "deepClone n [Plain [(''self'', Ref 0)]] (Ref 0) = OutOfFuel"
  by (induction n) simp_all

section \<open>Strategy tables\<close>

lemma merge_key_cong:
  assumes "same_tests st st'"
  shows "merge_key rec dc st t s p k h = merge_key rec dc st' t s p k h"
proof -
  let ?cp = "currentPath p k"
  have c: "(st ?cp = Some ''safe'') = (st' ?cp = Some ''safe'')"
    "(st ?cp = None) = (st' ?cp = None)"
    "(st ?cp = Some ''replace'') = (st' ?cp = Some ''replace'')"
    using assms unfolding same_tests_def by blast+
  show ?thesis
  proof (cases "get_prop h s k")
    case (Returns sv)
    show ?thesis
    proof (cases "get_prop h t k")
      case Rt: (Returns tv)
      show ?thesis unfolding merge_key_unfold[OF Returns Rt] c ..
    qed (simp_all add: merge_key_def Returns)
  qed (simp_all add: merge_key_def)
qed

lemma merge_keys_cong:
  assumes "same_tests st st'"
  shows "merge_keys rec dc st t s p ks h = merge_keys rec dc st' t s p ks h"
proof (induction ks arbitrary: h)
  case Nil
  then show ?case by simp
next
  case (Cons k ks)
  have "merge_keys rec dc st t s p ks = merge_keys rec dc st' t s p ks"
    by (intro ext) (rule Cons.IH)
  then show ?case by (simp add: merge_key_cong[OF assms])
qed

lemma merge_cong:
  assumes "same_tests st st'"
  shows "merge n st h t s p = merge n st' h t s p"
proof (induction n arbitrary: h t s p)
  case 0
  then show ?case by simp
next
  case (Suc n)
  have "merge n st = merge n st'" by (intro ext) (rule Suc.IH)
  then show ?case by (simp add: merge_keys_cong[OF assms])
qed

lemma same_tests_malformed: "same_tests st (malformed_as_merge st)"
  unfolding same_tests_def malformed_as_merge_def recognized_def
  by (auto split: option.splits)

section \<open>Ownership of the result and the empty override\<close>

text \<open>Every array and plain object of the result that is reached through properties and
  elements is an object made by the call.\<close>

lemma mergeConfig_result_owned:
  assumes "mergeConfig n options h config newConfig = Returns (r, h')"
  shows "\<exists>T A. own h' r T A \<and> A \<subseteq> {length h..<length h'}"
proof -
  from assms obtain h1 where
    1: "deepClone n h config = Returns (r, h1)"
    and 2: "merge n (strategies_of options) h1 r newConfig [] = Returns h'"
    by (auto simp: mergeConfig_Returns)
  from deepClone_post[OF 1] obtain e t A where
    c: "h1 = h @ e" "own h1 r t A" "A \<subseteq> {length h..<length h1}"
    by (auto simp: clone_post_def)
  have "length h \<le> length h1" using c(1) by simp
  from post_state[OF merge_merge_post[OF 2] c(2,3) this] show ?thesis by blast
qed

lemma mergeConfig_empty_override:
  assumes "s < length h" "h ! s = Plain []"
  shows "mergeConfig n options h x (Ref s) = deepClone n h x"
proof (cases "deepClone n h x")
  case (Returns y)
  obtain r h1 where y: "y = (r, h1)" by (cases y)
  from Returns obtain m where n: "n = Suc m" by (cases n) auto
  from deepClone_post[OF Returns[unfolded y]] obtain e where "h1 = h @ e"
    by (auto simp: clone_post_def)
  with assms have "s < length h1" "h1 ! s = Plain []" by (auto simp: nth_append)
  then have "merge (Suc m) (strategies_of options) h1 r (Ref s) [] = Returns h1"
    by (simp add: isArray_def object_keys_def)
  then show ?thesis using Returns y n by (simp add: mergeConfig_def del: deepClone_Suc_case merge_Suc_case)
qed (simp_all add: mergeConfig_def)

lemma mergeConfig_empty_override_deep_equal:
  assumes "mergeConfig n options h x (Ref s) = Returns (r, h')" "s < length h" "h ! s = Plain []"
  shows "deep_equal h' r x"
proof -
  from assms have "deepClone n h x = Returns (r, h')" by (simp add: mergeConfig_empty_override)
  from deepClone_post[OF this] show ?thesis
    by (auto simp: clone_post_def deep_equal_def dest: own_shape)
qed

text \<open>Merging the empty object into a result gives a value deep-equal to that result, and
  does so for a large enough budget.\<close>

lemma mergeConfig_idempotent:
  assumes run: "mergeConfig n options h base override = Returns (r, h1)"
    and s: "s < length h" "h ! s = Plain []"
  shows "(\<exists>m r2 h2. mergeConfig m options2 h1 r (Ref s) = Returns (r2, h2)) \<and>
         (\<forall>m r2 h2. mergeConfig m options2 h1 r (Ref s) = Returns (r2, h2) \<longrightarrow> deep_equal h2 r2 r)"
proof -
  from mergeConfig_extends[OF run] obtain e where "h1 = h @ e" by blast
  with s have s1: "s < length h1" "h1 ! s = Plain []" by (auto simp: nth_append)
  from mergeConfig_result_owned[OF run] obtain T A where "own h1 r T A" by blast
  then have "shape h1 r T" by (rule own_shape)
  from shape_deepClone[OF this, of "[]"] obtain m y where "deepClone m h1 r = Returns y" by auto
  then have "\<exists>m r2 h2. mergeConfig m options2 h1 r (Ref s) = Returns (r2, h2)"
    using mergeConfig_empty_override[OF s1, of m options2 r] by (cases y) auto
  moreover have "\<forall>m r2 h2. mergeConfig m options2 h1 r (Ref s) = Returns (r2, h2) \<longrightarrow> deep_equal h2 r2 r"
    using mergeConfig_empty_override_deep_equal[OF _ s1] by blast
  ultimately show ?thesis by blast
qed

section \<open>Removing malformed entries\<close>

lemma merge_key_agree:
  assumes tests: "\<And>sv. get_prop h s k = Returns sv \<Longrightarrow>
        (st (currentPath p k) = Some ''safe'') = (st' (currentPath p k) = Some ''safe'') \<and>
        (st (currentPath p k) = None \<and> sv = Undefined) = (st' (currentPath p k) = None \<and> sv = Undefined) \<and>
        (st (currentPath p k) = Some ''replace'') = (st' (currentPath p k) = Some ''replace'')"
    and rec: "\<And>sv tv. get_prop h s k = Returns sv \<Longrightarrow> get_prop h t k = Returns tv \<Longrightarrow>
        is_object sv \<Longrightarrow> is_object tv \<Longrightarrow>
        rec h tv sv (currentPath p k) = rec' h tv sv (currentPath p k)"
  shows "merge_key rec dc st t s p k h = merge_key rec' dc st' t s p k h"
proof (cases "get_prop h s k")
  case (Returns sv)
  note c = tests[OF Returns]
  show ?thesis
  proof (cases "get_prop h t k")
    case Rt: (Returns tv)
    have a: "(st (currentPath p k) = Some ''safe'') = (st' (currentPath p k) = Some ''safe'')"
      and b: "(st (currentPath p k) = None \<and> sv = Undefined) = (st' (currentPath p k) = None \<and> sv = Undefined)"
      and d: "(st (currentPath p k) = Some ''replace'') = (st' (currentPath p k) = Some ''replace'')"
      using c by blast+
    show ?thesis
    proof (cases "is_object sv \<and> is_object tv")
      case True
      then have r: "rec h tv sv (currentPath p k) = rec' h tv sv (currentPath p k)"
        using rec[OF Returns Rt] by blast
      show ?thesis unfolding merge_key_unfold[OF Returns Rt] a b d r ..
    next
      case False
      show ?thesis unfolding merge_key_unfold[OF Returns Rt] a b d
        by (simp only: False if_False)
    qed
  qed (simp_all add: merge_key_def Returns)
qed (simp_all add: merge_key_def)

lemma fresh_target_step:
  assumes "fresh_target h H t" "merge_post H t H1"
  shows "fresh_target h H1 t"
proof -
  from assms(1) obtain T A where
    f: "length h \<le> length H" "\<forall>x<length h. H ! x = h ! x" "own H t T A" "A \<subseteq> {length h..<length H}"
    unfolding fresh_target_def by blast
  from post_state[OF assms(2) f(3,4,1)] obtain Ta Aa where
    p: "own H1 t Ta Aa" "Aa \<subseteq> {length h..<length H1}" "length H \<le> length H1"
       "\<forall>x<length h. H1 ! x = H ! x" by blast
  show ?thesis unfolding fresh_target_def using f(1,2) p by auto
qed

lemma fresh_target_child:
  assumes "fresh_target h H t" "get_prop H t k = Returns tv" "is_object tv"
  shows "fresh_target h H tv"
proof -
  from assms(1) obtain T A where
    f: "length h \<le> length H" "\<forall>x<length h. H ! x = h ! x" "own H t T A" "A \<subseteq> {length h..<length H}"
    unfolding fresh_target_def by blast
  from get_prop_object[OF assms(2,3)] obtain c ps where
    g: "t = Ref c" "H ! c = Plain ps" "map_of ps k = Some tv" by blast
  from own_Plain_inv[OF f(3)[unfolded g(1)] g(2)] obtain ts B where
    i: "A = insert c B" "owns H (map snd ps) ts B" by blast
  from owns_lookup[OF i(2) g(3)] obtain t0 A0 where "own H tv t0 A0" "A0 \<subseteq> B" by blast
  then show ?thesis unfolding fresh_target_def using f i(1) by blast
qed

lemma without_malformed_tests:
  "(st q = Some ''safe'') = (without_malformed st q = Some ''safe'')"
  "(st q = Some ''replace'') = (without_malformed st q = Some ''replace'')"
  "(case st q of None \<Rightarrow> True | Some s \<Rightarrow> recognized s) \<Longrightarrow>
     (st q = None) = (without_malformed st q = None)"
  by (auto simp: without_malformed_def recognized_def split: option.splits)

lemma merge_without_malformed:
  assumes wf: "wf_heap h"
  shows "fresh_target h H t \<Longrightarrow> val_ok h s \<Longrightarrow> undef_free n st h s p \<Longrightarrow>
     merge n st H t s p = merge n (without_malformed st) H t s p"
proof (induction n arbitrary: H t s p)
  case 0
  then show ?case by simp
next
  case (Suc n)
  let ?st' = "without_malformed st"
  show ?case
  proof (cases "\<not> is_object s \<or> isArray H s")
    case True
    then show ?thesis by auto
  next
    case False
    then obtain a where s: "s = Ref a" by (cases s) auto
    from Suc.prems(2) s have a: "a < length h" by (simp add: val_ok_def)
    from Suc.prems(1) have old: "length h \<le> length H" "\<forall>x<length h. H ! x = h ! x"
      unfolding fresh_target_def by blast+
    have Ha: "a < length H" "H ! a = h ! a" using a old by auto
    show ?thesis
    proof (cases "h ! a")
      case (Plain ps)
      have keys: "object_keys H s = Returns (map fst ps)"
        using Ha Plain s by (simp add: object_keys_def)
      have uf: "list_all (\<lambda>(key, v).
                   (v = Undefined \<longrightarrow>
                      (case st (currentPath p key) of None \<Rightarrow> True | Some s \<Rightarrow> recognized s)) \<and>
                   undef_free n st h v (currentPath p key)) ps"
        using Suc.prems(3) s a Plain by simp
      have vok: "list_all (val_ok h) (map snd ps)"
        using wf_heap_nth[OF wf a] Plain by (simp add: obj_ok_def)
      have loop: "merge_keys (merge n st) (deepClone n) st t s p ks H' =
                  merge_keys (merge n ?st') (deepClone n) ?st' t s p ks H'"
        if "set ks \<subseteq> fst ` set ps" "fresh_target h H' t" for ks H'
        using that
      proof (induction ks arbitrary: H')
        case Nil
        then show ?case by simp
      next
        case (Cons k ks)
        from Cons.prems(2) have old': "length h \<le> length H'" "\<forall>x<length h. H' ! x = h ! x"
          unfolding fresh_target_def by blast+
        have H'a: "a < length H'" "H' ! a = Plain ps" using a old' Plain by auto
        from Cons.prems(1) obtain v where v: "map_of ps k = Some v"
          by (cases "map_of ps k") (auto simp: map_of_eq_None_iff)
        then have mem: "(k, v) \<in> set ps" by (rule map_of_SomeD)
        have gs: "get_prop H' s k = Returns v" unfolding s using H'a v by (simp add: get_prop_Plain)
        from uf mem have u: "v = Undefined \<longrightarrow>
            (case st (currentPath p k) of None \<Rightarrow> True | Some s \<Rightarrow> recognized s)"
          "undef_free n st h v (currentPath p k)"
          by (auto simp: list_all_iff)
        from vok mem have vv: "val_ok h v" by (auto simp: list_all_iff)
        have step: "merge_key (merge n st) (deepClone n) st t s p k H' =
                    merge_key (merge n ?st') (deepClone n) ?st' t s p k H'"
        proof (rule merge_key_agree)
          fix sv assume "get_prop H' s k = Returns sv"
          with gs have sv: "sv = v" by simp
          show "(st (currentPath p k) = Some ''safe'') = (?st' (currentPath p k) = Some ''safe'') \<and>
            (st (currentPath p k) = None \<and> sv = Undefined) =
              (?st' (currentPath p k) = None \<and> sv = Undefined) \<and>
            (st (currentPath p k) = Some ''replace'') = (?st' (currentPath p k) = Some ''replace'')"
            using without_malformed_tests[of st "currentPath p k"] u(1) sv by blast
        next
          fix sv tv
          assume g: "get_prop H' s k = Returns sv" "get_prop H' t k = Returns tv"
            "is_object sv" "is_object tv"
          with gs have sv: "sv = v" by simp
          from fresh_target_child[OF Cons.prems(2) g(2,4)]
          show "merge n st H' tv sv (currentPath p k) = merge n ?st' H' tv sv (currentPath p k)"
            unfolding sv using vv u(2) by (rule Suc.IH)
        qed
        show ?case
        proof (cases "merge_key (merge n st) (deepClone n) st t s p k H'")
          case (Returns H1)
          from merge_key_post[OF merge_rec_ok deepClone_dc_ok Returns]
          have "fresh_target h H1 t" by (rule fresh_target_step[OF Cons.prems(2)])
          with Cons.IH[of H1] Cons.prems(1) show ?thesis using Returns step by simp
        qed (use step in simp_all)
      qed
      have "merge_keys (merge n st) (deepClone n) st t s p (map fst ps) H =
            merge_keys (merge n ?st') (deepClone n) ?st' t s p (map fst ps) H"
        by (rule loop) (use Suc.prems(1) in auto)
      with False keys show ?thesis by simp
    next
      case (Array es)
      with False Ha s show ?thesis by (simp add: isArray_def)
    qed (use False Ha s in \<open>simp_all add: object_keys_def\<close>)
  qed
qed

lemma mergeConfig_without_malformed:
  assumes "wf_heap h" "val_ok h newConfig" "undef_free n st h newConfig []"
  shows "mergeConfig n (Some st) h config newConfig =
         mergeConfig n (Some (without_malformed st)) h config newConfig"
proof (cases "deepClone n h config")
  case (Returns y)
  obtain r h1 where y: "y = (r, h1)" by (cases y)
  from deepClone_post[OF Returns[unfolded y]] obtain e t A where
    c: "h1 = h @ e" "own h1 r t A" "A \<subseteq> {length h..<length h1}"
    by (auto simp: clone_post_def)
  then have "fresh_target h h1 r" unfolding fresh_target_def by (auto simp: nth_append)
  from merge_without_malformed[OF assms(1) this assms(2,3)] show ?thesis
    using Returns y by (simp add: mergeConfig_def strategies_of_def del: merge_Suc_case)
qed (simp_all add: mergeConfig_def)

section \<open>The claims\<close>

text \<open>
  Claim C1: the value returned by \<^verbatim>\<open>mergeConfig\<close> shares no nested map or sequence with
  either input. It fails at the base \<^verbatim>\<open>{m: new Map([["k", inner]])}\<close> with the override
  \<^verbatim>\<open>{}\<close> (\<open>heap_C1\<close>): the property \<^verbatim>\<open>m\<close> of the result is a new map, at address 4,
  but its value under \<^verbatim>\<open>"k"\<close> is \<open>Ref 0\<close>, the object \<^verbatim>\<open>inner\<close> that the map of the base
  holds. \<^verbatim>\<open>deepClone\<close> copies the entries of a map without cloning them, where its
  description promises a deep clone of a map and where arrays and plain objects are cloned
  in depth.
\<close>

theorem C1_map_value_shared:
  "mergeConfig 3 None heap_C1 (Ref 2) (Ref 3) =
     Returns (Ref 5, heap_C1 @ [MapObj [(Prim (PStr ''k''), Ref 0)], Plain [(''m'', Ref 4)]])"
  by code_simp



text \<open>
  Claim C3 says that an entry of the strategy table that is not one of \<^verbatim>\<open>"merge"\<close>,
  \<^verbatim>\<open>"replace"\<close>, \<^verbatim>\<open>"safe"\<close> behaves as if it were absent, also when the override's value
  at that path is \<^verbatim>\<open>undefined\<close>. The code suppresses an \<^verbatim>\<open>undefined\<close> value only when
  the entry is \<^verbatim>\<open>"safe"\<close> or when \<^verbatim>\<open>strategies[currentPath] === undefined\<close>; a malformed
  entry is neither. As amended: \<^verbatim>\<open>mergeConfig\<close> behaves as if the malformed entries were
  removed whenever the override has no \<^verbatim>\<open>undefined\<close> value at a path that carries one;
  and in every case a malformed entry behaves exactly as the entry \<^verbatim>\<open>"merge"\<close> does.
\<close>

theorem C3_malformed_entry:
  "(wf_heap h \<and> val_ok h newConfig \<and> undef_free n st h newConfig [] \<longrightarrow>
      mergeConfig n (Some st) h config newConfig =
      mergeConfig n (Some (without_malformed st)) h config newConfig) \<and>
   mergeConfig n (Some st) h config newConfig =
   mergeConfig n (Some (malformed_as_merge st)) h config newConfig"
proof
  show "wf_heap h \<and> val_ok h newConfig \<and> undef_free n st h newConfig [] \<longrightarrow>
      mergeConfig n (Some st) h config newConfig =
      mergeConfig n (Some (without_malformed st)) h config newConfig"
    using mergeConfig_without_malformed by blast
  show "mergeConfig n (Some st) h config newConfig =
        mergeConfig n (Some (malformed_as_merge st)) h config newConfig"
    by (simp add: mergeConfig_def strategies_of_def merge_cong[OF same_tests_malformed, symmetric])
qed

text \<open>
  The table \<^verbatim>\<open>{a: "foo", "b.c": "safe"}\<close> on \<open>heap_C3w\<close>: the malformed entry is at
  \<^verbatim>\<open>a\<close>, where the override has 5, and the \<^verbatim>\<open>undefined\<close> value is at \<^verbatim>\<open>b.c\<close>, whose
  entry is well formed.
\<close>

theorem C3_witness:
  "undef_free 4 (map_of [(''a'', ''foo''), (''b.c'', ''safe'')]) heap_C3w (Ref 3) [] \<and>
   mergeConfig 4 (Some (map_of [(''a'', ''foo''), (''b.c'', ''safe'')])) heap_C3w (Ref 1) (Ref 3) =
     Returns (Ref 5, heap_C3w @ [Plain [(''c'', Prim (PNum 2))],
                                 Plain [(''a'', Prim (PNum 5)), (''b'', Ref 4)]]) \<and>
   mergeConfig 4 (Some (without_malformed (map_of [(''a'', ''foo''), (''b.c'', ''safe'')])))
       heap_C3w (Ref 1) (Ref 3) =
     Returns (Ref 5, heap_C3w @ [Plain [(''c'', Prim (PNum 2))],
                                 Plain [(''a'', Prim (PNum 5)), (''b'', Ref 4)]])"
proof -
  have wf: "wf_heap heap_C3w" by code_simp
  have ok: "val_ok heap_C3w (Ref 3)" by code_simp
  have uf: "undef_free 4 (map_of [(''a'', ''foo''), (''b.c'', ''safe'')]) heap_C3w (Ref 3) []"
    by code_simp
  have run: "mergeConfig 4 (Some (map_of [(''a'', ''foo''), (''b.c'', ''safe'')])) heap_C3w (Ref 1) (Ref 3) =
     Returns (Ref 5, heap_C3w @ [Plain [(''c'', Prim (PNum 2))],
                                 Plain [(''a'', Prim (PNum 5)), (''b'', Ref 4)]])"
    by code_simp
  from C3_malformed_entry[of heap_C3w "Ref 3" 4 "map_of [(''a'', ''foo''), (''b.c'', ''safe'')]" "Ref 1",
      THEN conjunct1, rule_format, OF conjI[OF wf conjI[OF ok uf]]] run uf
  show ?thesis by simp
qed

text \<open>
  The claim as stated fails at the base \<^verbatim>\<open>{a: 1}\<close>, the override \<^verbatim>\<open>{a: undefined}\<close> and
  the table \<^verbatim>\<open>{a: "foo"}\<close>: with the entry the result is \<^verbatim>\<open>{a: undefined}\<close>, with the
  entry removed it is \<^verbatim>\<open>{a: 1}\<close>.
\<close>

theorem C3_counterexample:
  "mergeConfig 3 (Some (map_of [(''a'', ''foo'')])) heap_C3 (Ref 0) (Ref 1)
     = Returns (Ref 2, heap_C3 @ [Plain [(''a'', Undefined)]])
   \<and> mergeConfig 3 (Some (without_malformed (map_of [(''a'', ''foo'')]))) heap_C3 (Ref 0) (Ref 1)
     = Returns (Ref 2, heap_C3 @ [Plain [(''a'', Prim (PNum 1))]])"
  by code_simp



text \<open>
  Claim C5: \<^verbatim>\<open>mergeConfig(x, {})\<close> is deep-equal to \<^verbatim>\<open>x\<close> and is not the identical
  instance at any nested composite. It fails at \<^verbatim>\<open>x = {s: new Set([inner])}\<close>
  (\<open>heap_C5\<close>): the set of the result, at address 4, has the member \<open>Ref 0\<close>, the very
  object \<^verbatim>\<open>inner\<close> nested in \<^verbatim>\<open>x\<close>. The members of a set, like the entries of a map,
  are copied without being cloned.
\<close>

theorem C5_set_member_shared:
  "mergeConfig 3 None heap_C5 (Ref 2) (Ref 3) =
     Returns (Ref 5, heap_C5 @ [SetObj [Ref 0], Plain [(''s'', Ref 4)]])"
  by code_simp

text \<open>
  Claim C6: when the override is not a plain composite (it is \<^verbatim>\<open>undefined\<close>, \<^verbatim>\<open>null\<close>,
  a boolean, number or string, or an array), \<^verbatim>\<open>mergeConfig\<close> is \<^verbatim>\<open>deepClone\<close> of the
  base: same result, same store, for every strategy table.
\<close>

theorem C6_non_composite_override_ignored:
  assumes "\<not> is_object newConfig \<or> isArray h newConfig"
  shows "mergeConfig n options h config newConfig = deepClone n h config"
proof (cases "deepClone n h config")
  case (Returns x)
  obtain r h1 where x: "x = (r, h1)" by (cases x)
  from Returns obtain m where n: "n = Suc m" by (cases n) auto
  from deepClone_post[OF Returns[unfolded x]] obtain e where "h1 = h @ e"
    by (auto simp: clone_post_def)
  then have "length h \<le> length h1" "\<forall>x<length h. h1 ! x = h ! x" by (auto simp: nth_append)
  with assms have "\<not> is_object newConfig \<or> isArray h1 newConfig"
    using isArray_agree[of h newConfig h1] by blast
  then show ?thesis using Returns x n by (simp add: mergeConfig_def del: deepClone_Suc_case)
qed (simp_all add: mergeConfig_def)

text \<open>The base \<^verbatim>\<open>{a: 1}\<close> with the array \<^verbatim>\<open>[7]\<close> as the override.\<close>

theorem C6_witness:
  "isArray heap_C6 (Ref 1) \<and>
   mergeConfig 2 None heap_C6 (Ref 0) (Ref 1) = Returns (Ref 2, heap_C6 @ [Plain [(''a'', Prim (PNum 1))]])"
proof -
  have a: "isArray heap_C6 (Ref 1)" by code_simp
  have "deepClone 2 heap_C6 (Ref 0) = Returns (Ref 2, heap_C6 @ [Plain [(''a'', Prim (PNum 1))]])"
    by code_simp
  with a C6_non_composite_override_ignored[of "Ref 1" heap_C6 2 None "Ref 0"] show ?thesis by simp
qed





text \<open>
  Claim C9 says that \<^verbatim>\<open>deepClone\<close> returns for every input. The code recurses into
  arrays and plain objects with no check for a cycle. As amended: for every value with a
  shape (its arrays and plain objects nest to a finite depth) \<^verbatim>\<open>deepClone\<close> returns
  with a large enough budget; and for no input does it throw an error of its own.
\<close>

theorem C9_deepClone_total_on_finite_shape:
  assumes "shape h v t"
  shows "(\<exists>n r. deepClone n h v = Returns r) \<and> (\<forall>n e. deepClone n h v \<noteq> Throws e)"
  using shape_deepClone[OF assms, of "[]"] deepClone_no_throw by simp

text \<open>
  The claim as stated fails at the object \<^verbatim>\<open>a\<close> with \<^verbatim>\<open>a.self = a\<close>: every call makes
  another, so no budget of nested calls is enough.
\<close>

theorem C9_counterexample:
  "\<forall>n. deepClone n [Plain [(''self'', Ref 0)]] (Ref 0) = OutOfFuel"
  using cyclic_never_returns by blast

text \<open>The array \<^verbatim>\<open>[{x: 1}, true]\<close> of \<open>heap_C8\<close>.\<close>

theorem C9_witness:
  "(\<exists>n r. deepClone n heap_C8 (Ref 2) = Returns r) \<and>
   (\<forall>n e. deepClone n heap_C8 (Ref 2) \<noteq> Throws e)"
proof -
  have "shape heap_C8 (Ref 0) (TPlain (map fst [(''x'', Prim (PNum 1))]) [TLeaf (Prim (PNum 1))])"
    by (rule shape_plain) (simp_all add: heap_C8_def shapes_Cons_iff shapes_Nil_iff shape_leaf)
  then have "shapes heap_C8 [Ref 0, Prim (PBool True)]
      [TPlain (map fst [(''x'', Prim (PNum 1))]) [TLeaf (Prim (PNum 1))], TLeaf (Prim (PBool True))]"
    by (simp add: shapes_Cons_iff shapes_Nil_iff shape_leaf)
  then have "shape heap_C8 (Ref 2)
      (TArray [TPlain (map fst [(''x'', Prim (PNum 1))]) [TLeaf (Prim (PNum 1))], TLeaf (Prim (PBool True))])"
    by (intro shape_array) (simp_all add: heap_C8_def)
  from C9_deepClone_total_on_finite_shape[OF this] show ?thesis .
qed



end
